theory Spec2Isabelle
  imports Complex_Main
begin

section \<open>A back-off Markov sentence generator (\<^verbatim>\<open>backend/markov.py\<close>)\<close>

text \<open>
  The class \<^verbatim>\<open>ShakespeareMarkov\<close> is embedded as a record of its fields and one HOL
  function per method. Python integers are \<^typ>\<open>int\<close>. The weights of \<^verbatim>\<open>next_word\<close>,
  floating-point numbers in the source, are rationals here. Exceptions are values of
  \<open>py_error\<close>.
\<close>

subsection \<open>Strings\<close>

datatype py_error = ValueError | IndexError | KeyError | TypeError

text \<open>A Python str is a sequence of Unicode code points.\<close>

type_synonym str = "nat list"

text \<open>The str that a literal of ASCII characters denotes.\<close>

definition lit :: "string \<Rightarrow> str" where
  "lit s = map of_char s"

text \<open>
  The methods of \<^verbatim>\<open>str\<close> that read the Unicode character database belong to the Python
  library, not to the repository. They are taken as they are, as parameters:
  \<open>isupper U w\<close>, \<open>isdigit U w\<close> and \<open>lower U w\<close> are \<^verbatim>\<open>w.isupper()\<close>, \<^verbatim>\<open>w.isdigit()\<close> and
  \<^verbatim>\<open>w.lower()\<close>, and \<open>isspace U c\<close> says whether \<^verbatim>\<open>str.split()\<close> takes the code point \<open>c\<close>
  for a blank.
\<close>

record unicode =
  isupper :: "str \<Rightarrow> bool"
  isdigit :: "str \<Rightarrow> bool"
  lower :: "str \<Rightarrow> str"
  isspace :: "nat \<Rightarrow> bool"

text \<open>
  \<^verbatim>\<open>str.replace(old, new)\<close>: the occurrences of \<open>old\<close> are found from the left and do
  not overlap.
\<close>

function py_replace :: "'a list \<Rightarrow> 'a list \<Rightarrow> 'a list \<Rightarrow> 'a list" where
  "py_replace old new [] = (if old = [] then new else [])"
| "py_replace old new (c # cs) =
     (if old = [] then new @ c # py_replace old new cs
      else if take (length old) (c # cs) = old
           then new @ py_replace old new (drop (length old) (c # cs))
      else c # py_replace old new cs)"
  by pat_completeness auto
termination
  by (relation "measure (\<lambda>(old, new, s). length s)") auto

text \<open>\<^verbatim>\<open>str.split()\<close>: the maximal runs of non-blank characters, in order.\<close>

fun split_ws :: "unicode \<Rightarrow> str \<Rightarrow> str \<Rightarrow> str list" where
  "split_ws U cur [] = (if cur = [] then [] else [cur])"
| "split_ws U cur (c # cs) =
     (if isspace U c then (if cur = [] then split_ws U [] cs else cur # split_ws U [] cs)
      else split_ws U (cur @ [c]) cs)"

definition py_split :: "unicode \<Rightarrow> str \<Rightarrow> str list" where
  "py_split U s = split_ws U [] s"


definition puncs :: "str list" where
  "puncs = map lit ['','', ''.'', '';'', ''!'', '':'', ''?'']"

subsection \<open>The model object\<close>

record model =
  mlag :: nat
  top_k :: int
  vocab :: "str list"
  word_to_id :: "str \<rightharpoonup> int"
  id_to_word :: "int \<rightharpoonup> str"
  M :: "int list list option"
  tokens :: "int list"

text \<open>
  \<open>__init__\<close>. The context order \<open>mlag\<close> is a natural number: the source gives it no
  meaning when it is negative. The matrix \<open>M\<close> is \<open>None\<close> until \<open>build_matrix\<close> has run.
\<close>

definition init :: "nat \<Rightarrow> int \<Rightarrow> model" where
  "init ml k = \<lparr>mlag = ml, top_k = k, vocab = [], word_to_id = Map.empty,
                id_to_word = Map.empty, M = None, tokens = []\<rparr>"

subsection \<open>\<open>load_and_process\<close>\<close>

text \<open>Step 3 of the method: blanks around the six marks, then the split.\<close>

definition separate_puncs :: "str \<Rightarrow> str" where
  "separate_puncs text = foldl (\<lambda>t p. py_replace p (lit '' '' @ p @ lit '' '') t) text puncs"

text \<open>The loop over \<open>words\<close> (lines 47 to 58), \<open>cleaned_words\<close> being the accumulator.\<close>

fun clean_loop :: "unicode \<Rightarrow> str list \<Rightarrow> str list \<Rightarrow> str list" where
  "clean_loop U [] cleaned_words = cleaned_words"
| "clean_loop U (w0 # ws) cleaned_words =
     (let w = filter (\<lambda>c. c \<notin> set (lit ''_-'')) w0 in
      if w = [] then clean_loop U ws cleaned_words
      else if isupper U w \<and> w \<notin> set [lit ''I'', lit ''A''] then clean_loop U ws cleaned_words
      else if isdigit U w then clean_loop U ws cleaned_words
      else clean_loop U ws (cleaned_words @ [lower U w]))"

text \<open>
  \<^verbatim>\<open>collections.Counter\<close>: a dictionary in insertion order, that is, in the order of
  the first appearance of each key.
\<close>

fun counter_incr :: "(str \<times> nat) list \<Rightarrow> str \<Rightarrow> (str \<times> nat) list" where
  "counter_incr [] w = [(w, 1)]"
| "counter_incr ((k, c) # kcs) w =
     (if k = w then (k, c + 1) # kcs else (k, c) # counter_incr kcs w)"

definition Counter :: "str list \<Rightarrow> (str \<times> nat) list" where
  "Counter ws = foldl counter_incr [] ws"

text \<open>
  \<^verbatim>\<open>Counter.most_common(n)\<close> is \<^verbatim>\<open>heapq.nlargest(n, items, key=count)\<close>, that is
  \<^verbatim>\<open>sorted(items, key=count, reverse=True)[:n]\<close> with a stable sort, and the empty list
  when \<open>n\<close> is not positive.
\<close>

definition most_common :: "int \<Rightarrow> (str \<times> nat) list \<Rightarrow> (str \<times> nat) list" where
  "most_common n items =
     (if n \<le> 0 then [] else take (nat n) (sort_key (\<lambda>(w, c). - int c) items))"

definition enumerate_py :: "'a list \<Rightarrow> (int \<times> 'a) list" where
  "enumerate_py xs = zip (map int [0..<length xs]) xs"

text \<open>The two dictionary comprehensions: one insertion per pair, in order.\<close>

definition make_word_to_id :: "str list \<Rightarrow> (str \<rightharpoonup> int)" where
  "make_word_to_id v = foldl (\<lambda>d (i, w). d(w \<mapsto> i)) Map.empty (enumerate_py v)"

definition make_id_to_word :: "str list \<Rightarrow> (int \<rightharpoonup> str)" where
  "make_id_to_word v = foldl (\<lambda>d (i, w). d(i \<mapsto> w)) Map.empty (enumerate_py v)"

text \<open>
  Steps 3 to 5 of the method (lines 37 to 58): \<open>text\<close> is the text once the lines are
  read and joined and the bracketed spans removed.
\<close>

definition tokenize :: "unicode \<Rightarrow> str \<Rightarrow> str list" where
  "tokenize U text = clean_loop U (py_split U (separate_puncs text)) []"

text \<open>The vocabulary (lines 60 to 73). Nothing on this path raises.\<close>

definition build_vocabulary :: "model \<Rightarrow> str list \<Rightarrow> py_error + model" where
  "build_vocabulary m cleaned_words =
     (let counts = Counter cleaned_words;
          v = map fst (most_common (top_k m) counts);
          w2i = make_word_to_id v;
          i2w = make_id_to_word v
      in Inr (m\<lparr>vocab := v, word_to_id := w2i, id_to_word := i2w,
                tokens := map (\<lambda>w. case w2i w of Some i \<Rightarrow> i | None \<Rightarrow> - 1) cleaned_words\<rparr>))"

definition load_and_process :: "unicode \<Rightarrow> model \<Rightarrow> str \<Rightarrow> py_error + model" where
  "load_and_process U m text = build_vocabulary m (tokenize U text)"

subsection \<open>\<open>build_matrix\<close>\<close>

text \<open>
  \<^verbatim>\<open>sliding_window_view(x, w)\<close>: the \<open>len(x) - w + 1\<close> windows of width \<open>w\<close>, a
  \<open>ValueError\<close> when the window is wider than the array.
\<close>

definition sliding_window_view :: "int list \<Rightarrow> nat \<Rightarrow> py_error + int list list" where
  "sliding_window_view x w =
     (if length x < w then Inl ValueError
      else Inr (map (\<lambda>i. take w (drop i x)) [0..<length x - w + 1]))"

text \<open>
  The columns \<open>-1\<close> and \<open>-2\<close> of the view are read, so that a view of fewer than two
  columns is an \<open>IndexError\<close>.
\<close>

definition build_matrix :: "model \<Rightarrow> py_error + model" where
  "build_matrix m =
     (let window_size = mlag m + 1 in
      case sliding_window_view (tokens m) window_size of
        Inl e \<Rightarrow> Inl e
      | Inr M_view \<Rightarrow>
          if window_size < 2 then Inl IndexError
          else Inr (m\<lparr>M := Some (filter (\<lambda>row. row ! (window_size - 1) \<noteq> - 1 \<and>
                                              row ! (window_size - 2) \<noteq> - 1) M_view)\<rparr>))"

text \<open>The start-up of \<^verbatim>\<open>main.py\<close>: construct, load, build.\<close>

definition load :: "unicode \<Rightarrow> str \<Rightarrow> nat \<Rightarrow> int \<Rightarrow> py_error + model" where
  "load U text ml k =
     (case load_and_process U (init ml k) text of
        Inl e \<Rightarrow> Inl e
      | Inr m \<Rightarrow> build_matrix m)"

subsection \<open>\<open>next_word\<close>\<close>

text \<open>
  \<^verbatim>\<open>numpy.random.choice\<close> is a library routine: what is modelled is that it raises on an
  empty sequence and otherwise returns the element at some position, of positive
  probability when probabilities are given. Which position is the generator's business:
  the number \<open>r\<close> stands for the generator's draw.
\<close>

definition np_choice :: "nat \<Rightarrow> 'a list \<Rightarrow> py_error + 'a" where
  "np_choice r a = (if a = [] then Inl ValueError else Inr (a ! (r mod length a)))"

definition np_choice_p :: "nat \<Rightarrow> 'a list \<Rightarrow> rat list \<Rightarrow> py_error + 'a" where
  "np_choice_p r a p =
     (if a = [] \<or> length p \<noteq> length a \<or> (\<exists>q \<in> set p. q < 0) \<or> sum_list p \<noteq> 1
      then Inl ValueError
      else let support = filter (\<lambda>j. 0 < p ! j) [0..<length a]
           in Inr (a ! (support ! (r mod length support))))"

definition dict_item :: "('k \<rightharpoonup> 'v) \<Rightarrow> 'k \<Rightarrow> py_error + 'v" where
  "dict_item d k = (case d k of None \<Rightarrow> Inl KeyError | Some v \<Rightarrow> Inr v)"

text \<open>
  The back-off loop \<^verbatim>\<open>for i in range(len(key_ids), 0, -1)\<close>, the two lists being its
  state. The matrix has \<open>mlag + 1\<close> columns: the slice \<^verbatim>\<open>M[:, mlag-i:mlag]\<close> of a row is
  \<open>take i (drop (mlag - i) row)\<close> and its target is \<open>row ! mlag\<close>.
\<close>

fun backoff_loop ::
  "nat \<Rightarrow> int list list \<Rightarrow> int list \<Rightarrow> nat \<Rightarrow> int list \<times> rat list \<Rightarrow> int list \<times> rat list" where
  "backoff_loop ml rows key_ids 0 acc = acc"
| "backoff_loop ml rows key_ids (Suc j) (next_word_candidates, weights) =
     (let i = Suc j;
          sub_key = drop (length key_ids - i) key_ids;
          matched = filter (\<lambda>row. take i (drop (ml - i) row) = sub_key) rows
      in if matched \<noteq> [] then
           let matched_targets = map (\<lambda>row. row ! ml) matched;
               w_val = 1 / of_nat (length matched_targets)
           in backoff_loop ml rows key_ids j
                (next_word_candidates @ matched_targets,
                 weights @ replicate (length matched_targets) w_val)
         else backoff_loop ml rows key_ids j (next_word_candidates, weights))"

text \<open>\<^verbatim>\<open>key_ids[-mlag:]\<close> is the whole list when \<open>mlag\<close> is \<open>0\<close>.\<close>

definition key_ids_of :: "model \<Rightarrow> str list \<Rightarrow> int list" where
  "key_ids_of m key_words =
     (let key_ids = List.map_filter (word_to_id m) key_words in
      if length key_ids > mlag m
      then (if mlag m = 0 then key_ids else drop (length key_ids - mlag m) key_ids)
      else key_ids)"

text \<open>The state of the two lists when the loop is left; \<open>M\<close> is read in each round.\<close>

definition candidates :: "model \<Rightarrow> int list \<Rightarrow> py_error + (int list \<times> rat list)" where
  "candidates m key_ids =
     (if key_ids = [] then Inr ([], [])
      else case M m of
             None \<Rightarrow> Inl TypeError
           | Some rows \<Rightarrow> Inr (backoff_loop (mlag m) rows key_ids (length key_ids) ([], [])))"

definition normalize :: "rat list \<Rightarrow> rat list" where
  "normalize weights = map (\<lambda>w. w / sum_list weights) weights"

definition next_word :: "model \<Rightarrow> nat \<Rightarrow> str list \<Rightarrow> py_error + str" where
  "next_word m r key_words =
     (case candidates m (key_ids_of m key_words) of
        Inl e \<Rightarrow> Inl e
      | Inr (next_word_candidates, weights) \<Rightarrow>
          if next_word_candidates = [] then
            (let valid_tokens = filter (\<lambda>t. t \<noteq> - 1) (tokens m) in
             case np_choice r valid_tokens of
               Inl e \<Rightarrow> Inl e
             | Inr t \<Rightarrow> dict_item (id_to_word m) t)
          else
            (case np_choice_p r next_word_candidates (normalize weights) of
               Inl e \<Rightarrow> Inl e
             | Inr chosen_id \<Rightarrow> dict_item (id_to_word m) chosen_id))"

subsection \<open>\<open>generate_sentence\<close>\<close>






subsection \<open>The tokenizer's rule for one word, as the specification words it\<close>

text \<open>
  Delete the underscores and hyphens; drop the word when nothing is left, when it is
  entirely upper-case and neither \<open>I\<close> nor \<open>A\<close>, or when it is entirely numeric;
  otherwise keep it in lower case.
\<close>

definition strip_marks :: "str \<Rightarrow> str" where
  "strip_marks w0 = filter (\<lambda>c. c \<noteq> of_char (CHR ''_'') \<and> c \<noteq> of_char (CHR ''-'')) w0"

definition dropped :: "unicode \<Rightarrow> str \<Rightarrow> bool" where
  "dropped U w \<longleftrightarrow>
     w = [] \<or> (isupper U w \<and> w \<noteq> lit ''I'' \<and> w \<noteq> lit ''A'') \<or> isdigit U w"

definition spec_token :: "unicode \<Rightarrow> str \<Rightarrow> str option" where
  "spec_token U w0 = (if dropped U (strip_marks w0) then None else Some (lower U (strip_marks w0)))"

text \<open>
  What the four methods do on a text of ASCII characters. The examples are such texts.
\<close>

definition ascii :: unicode where
  "ascii =
     \<lparr>isupper = (\<lambda>w. (\<exists>c \<in> set w. 65 \<le> c \<and> c \<le> 90) \<and> (\<forall>c \<in> set w. \<not> (97 \<le> c \<and> c \<le> 122))),
      isdigit = (\<lambda>w. w \<noteq> [] \<and> (\<forall>c \<in> set w. 48 \<le> c \<and> c \<le> 57)),
      lower = map (\<lambda>c. if 65 \<le> c \<and> c \<le> 90 then c + 32 else c),
      isspace = (\<lambda>c. c \<in> set [32, 9, 10, 11, 12, 13, 28, 29, 30, 31])\<rparr>"

subsection \<open>The ranking of the vocabulary\<close>

text \<open>The position of the first appearance of a word in a sequence.\<close>

fun first_index :: "'a list \<Rightarrow> 'a \<Rightarrow> nat" where
  "first_index [] x = 0"
| "first_index (y # ys) x = (if x = y then 0 else Suc (first_index ys x))"

text \<open>
  Descending frequency, ties broken by first appearance: \<open>a\<close> ranks before \<open>b\<close> when it
  is more frequent, or as frequent and seen first.
\<close>

definition ranks_before :: "str list \<Rightarrow> str \<Rightarrow> str \<Rightarrow> bool" where
  "ranks_before ws a b =
     (count_list ws b < count_list ws a \<or>
      (count_list ws a = count_list ws b \<and> first_index ws a < first_index ws b))"

text \<open>The words of \<^verbatim>\<open>counts.most_common()\<close>, all of them.\<close>

definition ranking :: "str list \<Rightarrow> str list" where
  "ranking ws = map fst (sort_key (\<lambda>(w, c). - int c) (Counter ws))"

subsection \<open>The back-off levels\<close>

text \<open>
  The rows of the table that match at level \<open>i\<close>: those whose columns \<open>mlag - i\<close> to
  \<open>mlag - 1\<close> are, position by position, the last \<open>i\<close> ids of the key.
\<close>

definition level_rows :: "nat \<Rightarrow> int list list \<Rightarrow> int list \<Rightarrow> nat \<Rightarrow> int list list" where
  "level_rows ml rows key i =
     filter (\<lambda>row. \<forall>j \<in> set [0..<i]. row ! (ml - i + j) = key ! (length key - i + j)) rows"

text \<open>
  What level \<open>i\<close> adds to the pool: the target of each matched row, with the weight
  one over the number of rows matched at this level.
\<close>

definition level_pool :: "nat \<Rightarrow> int list list \<Rightarrow> int list \<Rightarrow> nat \<Rightarrow> (int \<times> rat) list" where
  "level_pool ml rows key i =
     map (\<lambda>row. (row ! ml, 1 / of_nat (length (level_rows ml rows key i)))) (level_rows ml rows key i)"

subsection \<open>What holds of a loaded model\<close>

definition model_inv :: "model \<Rightarrow> bool" where
  "model_inv m \<longleftrightarrow>
     1 \<le> mlag m \<and> distinct (vocab m) \<and>
     word_to_id m = make_word_to_id (vocab m) \<and> id_to_word m = make_id_to_word (vocab m) \<and>
     (\<forall>t \<in> set (tokens m). t = - 1 \<or> (0 \<le> t \<and> t < int (length (vocab m)))) \<and>
     (\<forall>w \<in> set (vocab m). \<exists>t \<in> set (tokens m). t \<noteq> - 1) \<and>
     (\<exists>rows. M m = Some rows \<and>
        (\<forall>row \<in> set rows. length row = mlag m + 1 \<and> row ! mlag m \<noteq> - 1 \<and>
                             row ! mlag m \<in> set (tokens m)))"

subsection \<open>Two loaded models\<close>

text \<open>
  The model of the corpus \<open>Romeo is here. Juliet is there.\<close> with a context order of
  \<open>2\<close>, and the model of the corpus \<open>a b\<close> with a context order of \<open>1\<close> and a vocabulary
  of one word.
\<close>

definition example_vocab :: "str list" where
  "example_vocab = map lit [''is'', ''.'', ''romeo'', ''here'', ''juliet'', ''there'']"

definition example_model :: model where
  "example_model =
     \<lparr>mlag = 2, top_k = 100, vocab = example_vocab,
      word_to_id = make_word_to_id example_vocab,
      id_to_word = make_id_to_word example_vocab,
      M = Some [[2, 0, 3], [0, 3, 1], [3, 1, 4], [1, 4, 0], [4, 0, 5], [0, 5, 1]],
      tokens = [2, 0, 3, 1, 4, 0, 5, 1]\<rparr>"

definition sparse_model :: model where
  "sparse_model =
     \<lparr>mlag = 1, top_k = 1, vocab = [lit ''a''], word_to_id = make_word_to_id [lit ''a''],
      id_to_word = make_id_to_word [lit ''a''], M = Some [], tokens = [0, - 1]\<rparr>"

subsection \<open>The sentence, as the specification words it\<close>







section \<open>The tokenizer\<close>

lemma clean_loop_acc: "clean_loop U ws acc = acc @ List.map_filter (spec_token U) ws"
  by (induction ws arbitrary: acc)
    (simp_all add: Let_def spec_token_def dropped_def strip_marks_def lit_def)

text \<open>
  Claim C8. Whatever the Unicode tables behind \<^verbatim>\<open>isupper\<close>, \<^verbatim>\<open>isdigit\<close> and \<^verbatim>\<open>lower\<close>
  are, the cleaning loop applies the per-word rule to every word of the split text, in
  order: its result is the list of the words that are not dropped once stripped, each
  stripped and in lower case, in the order of the input.
\<close>

theorem clean_loop_per_token:
  "clean_loop U ws [] = List.map_filter (spec_token U) ws \<and>
   clean_loop U ws [] = map (lower U) (filter (\<lambda>w. \<not> dropped U w) (map strip_marks ws))"
proof -
  have "List.map_filter (spec_token U) ws =
        map (lower U) (filter (\<lambda>w. \<not> dropped U w) (map strip_marks ws))"
    by (induction ws) (simp_all add: spec_token_def)
  then show ?thesis by (simp add: clean_loop_acc)
qed

theorem clean_loop_per_token_witness:
  "clean_loop ascii (map lit [''ROMEO'', ''I'', ''well-met'', ''12'', ''--'', ''Is'', ''.'']) [] =
     map lit [''i'', ''wellmet'', ''is'', ''.'']"
  using clean_loop_per_token [of ascii "map lit [''ROMEO'', ''I'', ''well-met'', ''12'', ''--'', ''Is'', ''.'']"]
  by (simp add: spec_token_def dropped_def strip_marks_def lit_def ascii_def)

section \<open>The vocabulary\<close>

subsection \<open>The counter keeps the order of first appearance\<close>

lemma Counter_snoc: "Counter (ws @ [w]) = counter_incr (Counter ws) w"
  by (simp add: Counter_def)

lemma keys_counter_incr:
  "map fst (counter_incr kcs w) = (if w \<in> fst ` set kcs then map fst kcs else map fst kcs @ [w])"
  by (induction kcs w rule: counter_incr.induct) (auto simp: image_iff)

lemma first_index_less: "x \<in> set xs \<Longrightarrow> first_index xs x < length xs"
  by (induction xs) auto

lemma first_index_notin: "x \<notin> set xs \<Longrightarrow> first_index xs x = length xs"
  by (induction xs) auto

lemma first_index_append: "first_index (xs @ ys) x = (if x \<in> set xs then first_index xs x else length xs + first_index ys x)"
  by (induction xs) auto

lemma nth_first_index: "x \<in> set xs \<Longrightarrow> xs ! first_index xs x = x"
  by (induction xs) auto

lemma Counter_keys_set: "fst ` set (Counter ws) = set ws"
proof (induction ws rule: rev_induct)
  case Nil
  then show ?case by (simp add: Counter_def)
next
  case (snoc w ws)
  have "fst ` set (Counter (ws @ [w])) = set (map fst (counter_incr (Counter ws) w))"
    by (simp add: Counter_snoc)
  also have "\<dots> = set (ws @ [w])"
    using snoc.IH by (auto simp: keys_counter_incr)
  finally show ?case .
qed

lemma Counter_keys_order:
  "sorted_wrt (\<lambda>a b. first_index ws a < first_index ws b) (map fst (Counter ws))"
proof (induction ws rule: rev_induct)
  case Nil
  then show ?case by (simp add: Counter_def)
next
  case (snoc w ws)
  let ?ks = "map fst (Counter ws)"
  have ks: "set ?ks = set ws" using Counter_keys_set [of ws] by simp
  have old: "sorted_wrt (\<lambda>a b. first_index (ws @ [w]) a < first_index (ws @ [w]) b) ?ks"
  proof (rule sorted_wrt_mono_rel [OF _ snoc.IH])
    fix a b
    assume "a \<in> set ?ks" "b \<in> set ?ks" "first_index ws a < first_index ws b"
    then show "first_index (ws @ [w]) a < first_index (ws @ [w]) b"
      using ks by (simp add: first_index_append)
  qed
  show ?case
  proof (cases "w \<in> set ws")
    case True
    then show ?thesis using old ks by (simp add: Counter_snoc keys_counter_incr Counter_keys_set)
  next
    case False
    have "\<forall>a \<in> set ?ks. first_index (ws @ [w]) a < first_index (ws @ [w]) w"
      using False ks by (auto simp: first_index_append first_index_less)
    then show ?thesis using old False
      by (simp add: Counter_snoc keys_counter_incr Counter_keys_set sorted_wrt_append)
  qed
qed

lemma Counter_distinct: "distinct (map fst (Counter ws))"
proof -
  have "sorted_wrt (\<lambda>a b. a \<noteq> b) (map fst (Counter ws))"
    by (rule sorted_wrt_mono_rel [OF _ Counter_keys_order [of ws]]) auto
  then show ?thesis by (simp add: distinct_conv_nth sorted_wrt_iff_nth_less) (metis nat_neq_iff)
qed

lemma map_of_counter_incr:
  "map_of (counter_incr kcs w) = (map_of kcs)(w \<mapsto> (case map_of kcs w of None \<Rightarrow> 1 | Some c \<Rightarrow> c + 1))"
  by (induction kcs w rule: counter_incr.induct) (auto simp: fun_eq_iff)

lemma Counter_counts:
  "map_of (Counter ws) w = (if w \<in> set ws then Some (count_list ws w) else None)"
proof (induction ws rule: rev_induct)
  case Nil
  then show ?case by (simp add: Counter_def)
next
  case (snoc x ws)
  then show ?case by (auto simp: Counter_snoc map_of_counter_incr)
qed

lemma Counter_item: "(w, c) \<in> set (Counter ws) \<Longrightarrow> c = count_list ws w \<and> w \<in> set ws"
  using Counter_counts [of ws w] Counter_distinct [of ws]
  by (auto split: if_splits simp: )


subsection \<open>The sort is stable\<close>

lemma sorted_wrt_insort_key:
  fixes f :: "'a \<Rightarrow> int"
  assumes "sorted_wrt R ys"
    and "\<forall>y \<in> set ys. f y < f x \<longrightarrow> R y x"
    and "\<forall>y \<in> set ys. f x \<le> f y \<longrightarrow> R x y"
    and "sorted (map f ys)"
  shows "sorted_wrt R (insort_key f x ys)"
  using assms
proof (induction ys)
  case Nil
  then show ?case by simp
next
  case (Cons y ys)
  show ?case
  proof (cases "f x \<le> f y")
    case True
    have "\<forall>z \<in> set ys. f x \<le> f z" using True Cons.prems(4) by auto
    then show ?thesis using True Cons.prems by auto
  next
    case False
    have "sorted_wrt R (insort_key f x ys)"
      using Cons.IH Cons.prems by auto
    moreover have "\<forall>z \<in> set (insort_key f x ys). R y z"
      using False Cons.prems by (auto simp: set_insort_key)
    ultimately show ?thesis using False by simp
  qed
qed

lemma sort_key_stable_wrt:
  fixes f :: "'a \<Rightarrow> int"
  assumes "sorted_wrt B xs"
  shows "sorted_wrt (\<lambda>p q. f p < f q \<or> (f p = f q \<and> B p q)) (sort_key f xs)"
  using assms
proof (induction xs)
  case Nil
  then show ?case by simp
next
  case (Cons x xs)
  have "sorted_wrt (\<lambda>p q. f p < f q \<or> (f p = f q \<and> B p q)) (insort_key f x (sort_key f xs))"
  proof (rule sorted_wrt_insort_key)
    show "sorted_wrt (\<lambda>p q. f p < f q \<or> (f p = f q \<and> B p q)) (sort_key f xs)"
      using Cons by simp
    show "\<forall>y\<in>set (sort_key f xs). f y < f x \<longrightarrow> (f y < f x \<or> (f y = f x \<and> B y x))"
      by simp
    show "\<forall>y\<in>set (sort_key f xs). f x \<le> f y \<longrightarrow> (f x < f y \<or> (f x = f y \<and> B x y))"
      using Cons.prems by auto
    show "sorted (map f (sort_key f xs))" by (rule sorted_sort_key)
  qed
  then show ?case by simp
qed

lemma ranking_set: "set (ranking ws) = set ws"
  using Counter_keys_set [of ws] by (simp add: ranking_def)

lemma ranking_distinct: "distinct (ranking ws)"
  using Counter_distinct [of ws] by (simp add: ranking_def distinct_map)

lemma ranking_sorted: "sorted_wrt (ranks_before ws) (ranking ws)"
proof -
  let ?B = "\<lambda>p q. first_index ws (fst p) < first_index ws (fst q)"
  let ?f = "\<lambda>(w, c). - int c"
  let ?xs = "sort_key ?f (Counter ws)"
  have "sorted_wrt ?B (Counter ws)"
    using Counter_keys_order [of ws] by (simp add: sorted_wrt_map)
  then have s: "sorted_wrt (\<lambda>p q. ?f p < ?f q \<or> (?f p = ?f q \<and> ?B p q)) ?xs"
    by (rule sort_key_stable_wrt)
  have "sorted_wrt (\<lambda>p q. ranks_before ws (fst p) (fst q)) ?xs"
  proof (rule sorted_wrt_mono_rel [OF _ s])
    fix p q
    assume p: "p \<in> set ?xs" and q: "q \<in> set ?xs"
      and r: "?f p < ?f q \<or> (?f p = ?f q \<and> ?B p q)"
    obtain a c where pa: "p = (a, c)" by (cases p)
    obtain b d where qb: "q = (b, d)" by (cases q)
    have "c = count_list ws a" "d = count_list ws b"
      using p q pa qb Counter_item by auto
    then show "ranks_before ws (fst p) (fst q)"
      using r pa qb by (auto simp: ranks_before_def)
  qed
  then show ?thesis by (simp add: ranking_def sorted_wrt_map)
qed

lemma vocab_ranking: "map fst (most_common k (Counter ws)) = take (nat k) (ranking ws)"
  by (simp add: most_common_def ranking_def take_map)

subsection \<open>The two dictionaries\<close>

lemma enumerate_py_snoc: "enumerate_py (v @ [x]) = enumerate_py v @ [(int (length v), x)]"
  by (simp add: enumerate_py_def)

lemma make_id_to_word_iff:
  "make_id_to_word v i = Some w \<longleftrightarrow> 0 \<le> i \<and> i < int (length v) \<and> v ! nat i = w"
proof (induction v rule: rev_induct)
  case Nil
  then show ?case by (simp add: make_id_to_word_def enumerate_py_def)
next
  case (snoc x v)
  have step: "make_id_to_word (v @ [x]) = (make_id_to_word v)(int (length v) \<mapsto> x)"
    by (simp add: make_id_to_word_def enumerate_py_snoc)
  show ?case
  proof (cases "i = int (length v)")
    case True
    then show ?thesis by (simp add: step)
  next
    case False
    then show ?thesis using snoc.IH by (auto simp: step nth_append)
  qed
qed

lemma make_word_to_id_iff:
  assumes "distinct v"
  shows "make_word_to_id v w = Some i \<longleftrightarrow> 0 \<le> i \<and> i < int (length v) \<and> v ! nat i = w"
  using assms
proof (induction v rule: rev_induct)
  case Nil
  then show ?case by (simp add: make_word_to_id_def enumerate_py_def)
next
  case (snoc x v)
  have step: "make_word_to_id (v @ [x]) = (make_word_to_id v)(x \<mapsto> int (length v))"
    by (simp add: make_word_to_id_def enumerate_py_snoc)
  have d: "distinct v" "x \<notin> set v" using snoc.prems by auto
  show ?case
  proof (cases "w = x")
    case True
    have "\<And>j. j < length v \<Longrightarrow> v ! j \<noteq> x" using d(2) by (metis nth_mem)
    then show ?thesis using True
      by (auto simp: step nth_append split: if_splits)
  next
    case False
    then show ?thesis using snoc.IH [OF d(1)] by (auto simp: step nth_append)
  qed
qed


lemma build_vocabulary_eq:
  "build_vocabulary m ws =
     Inr (m\<lparr>vocab := take (nat (top_k m)) (ranking ws),
            word_to_id := make_word_to_id (take (nat (top_k m)) (ranking ws)),
            id_to_word := make_id_to_word (take (nat (top_k m)) (ranking ws)),
            tokens := map (\<lambda>w. case make_word_to_id (take (nat (top_k m)) (ranking ws)) w of
                                 Some i \<Rightarrow> i | None \<Rightarrow> - 1) ws\<rparr>)"
  by (simp add: build_vocabulary_def Let_def vocab_ranking)

lemma make_word_to_id_None:
  assumes "distinct v"
  shows "make_word_to_id v w = None \<longleftrightarrow> w \<notin> set v"
proof
  assume "make_word_to_id v w = None"
  show "w \<notin> set v"
  proof
    assume "w \<in> set v"
    then obtain j where "j < length v" "v ! j = w" by (auto simp: in_set_conv_nth)
    then have "make_word_to_id v w = Some (int j)"
      using make_word_to_id_iff [OF assms, of w "int j"] by simp
    with \<open>make_word_to_id v w = None\<close> show False by simp
  qed
next
  assume "w \<notin> set v"
  show "make_word_to_id v w = None"
  proof (cases "make_word_to_id v w")
    case (Some i)
    then show ?thesis using make_word_to_id_iff [OF assms, of w i] \<open>w \<notin> set v\<close> by auto
  qed simp
qed

text \<open>
  Claim C6. For a positive \<open>top_k\<close> the vocabulary is the first \<open>top_k\<close> entries of the
  list of the distinct words ranked by descending frequency, ties by first appearance; it
  has at most \<open>top_k\<close> entries; \<open>word_to_id\<close> and \<open>id_to_word\<close> are inverse to each other
  between the words of the vocabulary and the ids \<open>0 .. |vocab| - 1\<close>, in the order of the
  ranking; and the token stream holds, at each position of the sequence, the id of the
  word there, or \<open>-1\<close> when the word is not in the vocabulary.
\<close>

theorem build_vocabulary_ranked:
  assumes "0 < top_k m"
  shows "\<exists>m' r. build_vocabulary m ws = Inr m' \<and>
           distinct r \<and> set r = set ws \<and> sorted_wrt (ranks_before ws) r \<and>
           vocab m' = take (nat (top_k m)) r \<and>
           int (length (vocab m')) \<le> top_k m \<and>
           (\<forall>w i. word_to_id m' w = Some i \<longleftrightarrow>
                    0 \<le> i \<and> i < int (length (vocab m')) \<and> vocab m' ! nat i = w) \<and>
           (\<forall>w i. id_to_word m' i = Some w \<longleftrightarrow>
                    0 \<le> i \<and> i < int (length (vocab m')) \<and> vocab m' ! nat i = w) \<and>
           length (tokens m') = length ws \<and>
           (\<forall>p < length ws.
              (ws ! p \<in> set (vocab m') \<longrightarrow> word_to_id m' (ws ! p) = Some (tokens m' ! p)) \<and>
              (ws ! p \<notin> set (vocab m') \<longrightarrow> tokens m' ! p = - 1))"
proof -
  let ?v = "take (nat (top_k m)) (ranking ws)"
  let ?m' = "m\<lparr>vocab := ?v, word_to_id := make_word_to_id ?v, id_to_word := make_id_to_word ?v,
                tokens := map (\<lambda>w. case make_word_to_id ?v w of Some i \<Rightarrow> i | None \<Rightarrow> - 1) ws\<rparr>"
  have d: "distinct ?v" using ranking_distinct [of ws] by simp
  have toks: "(ws ! p \<in> set ?v \<longrightarrow> make_word_to_id ?v (ws ! p) = Some (tokens ?m' ! p)) \<and>
              (ws ! p \<notin> set ?v \<longrightarrow> tokens ?m' ! p = - 1)" if "p < length ws" for p
    using that make_word_to_id_None [OF d, of "ws ! p"] by (auto split: option.splits)
  have "build_vocabulary m ws = Inr ?m'" by (rule build_vocabulary_eq)
  moreover have "int (length (vocab ?m')) \<le> top_k m" using assms by simp
  moreover have "\<forall>w i. word_to_id ?m' w = Some i \<longleftrightarrow>
                    0 \<le> i \<and> i < int (length (vocab ?m')) \<and> vocab ?m' ! nat i = w"
    using make_word_to_id_iff [OF d] by simp
  moreover have "\<forall>w i. id_to_word ?m' i = Some w \<longleftrightarrow>
                    0 \<le> i \<and> i < int (length (vocab ?m')) \<and> vocab ?m' ! nat i = w"
    using make_id_to_word_iff [of ?v] by simp
  moreover have "\<forall>p < length ws.
              (ws ! p \<in> set (vocab ?m') \<longrightarrow> word_to_id ?m' (ws ! p) = Some (tokens ?m' ! p)) \<and>
              (ws ! p \<notin> set (vocab ?m') \<longrightarrow> tokens ?m' ! p = - 1)"
    using toks by simp
  ultimately show ?thesis
    using ranking_distinct [of ws] ranking_set [of ws] ranking_sorted [of ws]
    by (intro exI [of _ ?m'] exI [of _ "ranking ws"]) simp
qed

theorem build_vocabulary_ranked_witness:
  "0 < top_k (init 4 2) \<and>
   (\<exists>m' r. build_vocabulary (init 4 2) (map lit [''b'', ''a'', ''b'', ''c'', ''a'']) = Inr m' \<and>
           distinct r \<and> set r = set (map lit [''b'', ''a'', ''b'', ''c'', ''a'']) \<and>
           sorted_wrt (ranks_before (map lit [''b'', ''a'', ''b'', ''c'', ''a''])) r \<and>
           vocab m' = take (nat (top_k (init 4 2))) r \<and>
           int (length (vocab m')) \<le> top_k (init 4 2) \<and>
           (\<forall>w i. word_to_id m' w = Some i \<longleftrightarrow>
                    0 \<le> i \<and> i < int (length (vocab m')) \<and> vocab m' ! nat i = w) \<and>
           (\<forall>w i. id_to_word m' i = Some w \<longleftrightarrow>
                    0 \<le> i \<and> i < int (length (vocab m')) \<and> vocab m' ! nat i = w) \<and>
           length (tokens m') = length (map lit [''b'', ''a'', ''b'', ''c'', ''a'']) \<and>
           (\<forall>p < length (map lit [''b'', ''a'', ''b'', ''c'', ''a'']).
              ((map lit [''b'', ''a'', ''b'', ''c'', ''a'']) ! p \<in> set (vocab m') \<longrightarrow>
                 word_to_id m' ((map lit [''b'', ''a'', ''b'', ''c'', ''a'']) ! p) = Some (tokens m' ! p)) \<and>
              ((map lit [''b'', ''a'', ''b'', ''c'', ''a'']) ! p \<notin> set (vocab m') \<longrightarrow> tokens m' ! p = - 1)))"
proof -
  have h: "0 < top_k (init 4 2)" by (simp add: init_def)
  show ?thesis
    using h build_vocabulary_ranked [OF h, of "map lit [''b'', ''a'', ''b'', ''c'', ''a'']"] by blast
qed

text \<open>
  Claim C7, as amended. The construction of the vocabulary never fails, whatever
  \<open>top_k\<close> is: no value of \<open>top_k\<close> is rejected. When \<open>top_k\<close> is not positive the
  vocabulary is empty and every position of the token stream holds \<open>-1\<close>.
\<close>

theorem build_vocabulary_total:
  "\<exists>m'. build_vocabulary m ws = Inr m' \<and>
        (top_k m \<le> 0 \<longrightarrow> vocab m' = [] \<and> tokens m' = replicate (length ws) (- 1))"
proof (cases "top_k m \<le> 0")
  case True
  then have "nat (top_k m) = 0" by simp
  then show ?thesis
    by (simp add: build_vocabulary_eq make_word_to_id_def enumerate_py_def map_replicate_const)
next
  case False
  then show ?thesis by (simp add: build_vocabulary_eq)
qed

theorem build_vocabulary_total_witness:
  "\<exists>m'. build_vocabulary (init 4 0) (map lit [''to'', ''be'']) = Inr m' \<and>
        (top_k (init 4 0) \<le> 0 \<longrightarrow> vocab m' = [] \<and> tokens m' = replicate (length (map lit [''to'', ''be''])) (- 1))"
  using build_vocabulary_total [of "init 4 0" "map lit [''to'', ''be'']"] by simp

text \<open>
  The claim as it stands asks for a failure when \<open>top_k\<close> is \<open>0\<close>; the method returns.
\<close>

theorem build_vocabulary_nonpositive_counterexample:
  "top_k (init 4 0) \<le> 0 \<and>
   build_vocabulary (init 4 0) (map lit [''to'', ''be'']) = Inr ((init 4 0)\<lparr>tokens := [- 1, - 1]\<rparr>)"
  by (simp add: build_vocabulary_def most_common_def make_word_to_id_def make_id_to_word_def
      enumerate_py_def init_def Counter_def)

section \<open>The transition table\<close>

lemma window_nth:
  assumes "i + w \<le> length x"
  shows "take w (drop i x) = map (\<lambda>j. x ! (i + j)) [0..<w]"
  using assms by (intro nth_equalityI) auto

lemma sliding_window_view_rows:
  assumes "w \<le> length x"
  shows "sliding_window_view x w = Inr (map (\<lambda>i. map (\<lambda>j. x ! (i + j)) [0..<w]) [0..<length x - w + 1])"
proof -
  have "map (\<lambda>i. take w (drop i x)) [0..<length x - w + 1]
      = map (\<lambda>i. map (\<lambda>j. x ! (i + j)) [0..<w]) [0..<length x - w + 1]"
    using assms by (intro map_cong refl window_nth) auto
  then show ?thesis using assms by (simp add: sliding_window_view_def)
qed

lemma build_matrix_eq:
  assumes "1 \<le> mlag m"
  shows "(length (tokens m) < mlag m + 1 \<longrightarrow> build_matrix m = Inl ValueError) \<and>
         (mlag m + 1 \<le> length (tokens m) \<longrightarrow>
            build_matrix m = Inr (m\<lparr>M := Some
              (map (\<lambda>i. map (\<lambda>j. tokens m ! (i + j)) [0..<mlag m + 1])
                 (filter (\<lambda>i. tokens m ! (i + mlag m) \<noteq> - 1 \<and> tokens m ! (i + mlag m - 1) \<noteq> - 1)
                    [0..<length (tokens m) - mlag m]))\<rparr>))"
proof (intro conjI impI)
  assume "length (tokens m) < mlag m + 1"
  then show "build_matrix m = Inl ValueError"
    by (simp add: build_matrix_def sliding_window_view_def)
next
  assume n: "mlag m + 1 \<le> length (tokens m)"
  let ?x = "tokens m" and ?ml = "mlag m"
  let ?row = "\<lambda>i. map (\<lambda>j. ?x ! (i + j)) [0..<?ml + 1]"
  have len: "length ?x - (?ml + 1) + 1 = length ?x - ?ml" using n by simp
  have col: "?row i ! k = ?x ! (i + k)" if "k \<le> ?ml" for i k
    using that nth_map [of k "[0..<?ml + 1]" "\<lambda>j. ?x ! (i + j)"] nth_upt [of 0 k "?ml + 1"]
    by simp
  have cols: "?row i ! ?ml = ?x ! (i + ?ml)" "?row i ! (?ml - 1) = ?x ! (i + ?ml - 1)" for i
    using col [of ?ml i] col [of "?ml - 1" i] assms by simp_all
  have "filter (\<lambda>row. row ! ?ml \<noteq> - 1 \<and> row ! (?ml - 1) \<noteq> - 1) (map ?row [0..<length ?x - ?ml])
      = map ?row (filter (\<lambda>i. ?x ! (i + ?ml) \<noteq> - 1 \<and> ?x ! (i + ?ml - 1) \<noteq> - 1) [0..<length ?x - ?ml])"
    unfolding filter_map comp_def cols ..
  then show "build_matrix m = Inr (m\<lparr>M := Some
              (map ?row (filter (\<lambda>i. ?x ! (i + ?ml) \<noteq> - 1 \<and> ?x ! (i + ?ml - 1) \<noteq> - 1)
                    [0..<length ?x - ?ml]))\<rparr>)"
    using assms n sliding_window_view_rows [of "?ml + 1" ?x] Suc_diff_Suc [of ?ml "length ?x"]
    by (simp add: build_matrix_def del: upt_Suc)
qed

text \<open>
  Claim C2, as amended. For a context order of at least \<open>1\<close>: a stream of fewer than
  \<open>mlag + 1\<close> positions makes the build fail, and any other stream gives the windows
  \<open>tokens[i .. i + mlag]\<close>, for \<open>i\<close> from \<open>0\<close> to \<open>n - mlag - 1\<close> in order, whose last and
  second-to-last columns are not \<open>-1\<close>; the earlier columns are not looked at.
\<close>

theorem build_matrix_windows:
  assumes "1 \<le> mlag m"
  shows "(length (tokens m) < mlag m + 1 \<longrightarrow> build_matrix m = Inl ValueError) \<and>
         (mlag m + 1 \<le> length (tokens m) \<longrightarrow>
            build_matrix m = Inr (m\<lparr>M := Some
              (map (\<lambda>i. map (\<lambda>j. tokens m ! (i + j)) [0..<mlag m + 1])
                 (filter (\<lambda>i. tokens m ! (i + mlag m) \<noteq> - 1 \<and> tokens m ! (i + mlag m - 1) \<noteq> - 1)
                    [0..<length (tokens m) - mlag m]))\<rparr>))"
  using assms by (rule build_matrix_eq)

theorem build_matrix_windows_witness:
  "1 \<le> mlag ((init 2 1000)\<lparr>tokens := [2, 0, - 1, 1, 4]\<rparr>) \<and>
   build_matrix ((init 2 1000)\<lparr>tokens := [2, 0, - 1, 1, 4]\<rparr>) =
     Inr ((init 2 1000)\<lparr>tokens := [2, 0, - 1, 1, 4], M := Some [[- 1, 1, 4]]\<rparr>) \<and>
   build_matrix ((init 2 1000)\<lparr>tokens := [2, 0]\<rparr>) = Inl ValueError"
  using build_matrix_windows [of "(init 2 1000)\<lparr>tokens := [2, 0, - 1, 1, 4]\<rparr>"]
    build_matrix_windows [of "(init 2 1000)\<lparr>tokens := [2, 0]\<rparr>"]
  by (simp add: init_def upt_rec)

text \<open>
  With a context order of \<open>0\<close> the view has one column, and the read of the
  second-to-last column fails although the stream has \<open>mlag + 1\<close> positions.
\<close>

theorem build_matrix_order_zero_counterexample:
  "mlag ((init 0 1000)\<lparr>tokens := [0]\<rparr>) + 1 \<le> length (tokens ((init 0 1000)\<lparr>tokens := [0]\<rparr>)) \<and>
   build_matrix ((init 0 1000)\<lparr>tokens := [0]\<rparr>) = Inl IndexError"
  by (simp add: build_matrix_def init_def sliding_window_view_def)

section \<open>The predictor\<close>

lemma zip_map_replicate: "zip (map f xs) (replicate (length xs) v) = map (\<lambda>x. (f x, v)) xs"
  by (induction xs) auto

lemma backoff_loop_zip:
  assumes "length c = length w"
  shows "length (fst (backoff_loop ml rows key n (c, w))) = length (snd (backoff_loop ml rows key n (c, w))) \<and>
         zip (fst (backoff_loop ml rows key n (c, w))) (snd (backoff_loop ml rows key n (c, w))) =
           zip c w @ concat (map (\<lambda>i.
              map (\<lambda>row. (row ! ml,
                     1 / of_nat (length (filter (\<lambda>row. take i (drop (ml - i) row) = drop (length key - i) key) rows))))
                (filter (\<lambda>row. take i (drop (ml - i) row) = drop (length key - i) key) rows))
              (rev [1..<n + 1]))"
  using assms
proof (induction n arbitrary: c w)
  case 0
  then show ?case by simp
next
  case (Suc n)
  let ?lv = "filter (\<lambda>row. take (Suc n) (drop (ml - Suc n) row) = drop (length key - Suc n) key) rows"
  have r: "rev [1..<Suc n + 1] = Suc n # rev [1..<n + 1]" by simp
  show ?case
  proof (cases "?lv = []")
    case True
    then show ?thesis using Suc.IH [OF Suc.prems] unfolding r by (simp add: Let_def)
  next
    case False
    let ?c' = "c @ map (\<lambda>row. row ! ml) ?lv"
    let ?w' = "w @ replicate (length ?lv) (1 / of_nat (length ?lv))"
    have l: "length ?c' = length ?w'" using Suc.prems by simp
    have step: "backoff_loop ml rows key (Suc n) (c, w) = backoff_loop ml rows key n (?c', ?w')"
      using False by (simp add: Let_def)
    have z: "zip ?c' ?w' = zip c w @ map (\<lambda>row. (row ! ml, 1 / of_nat (length ?lv))) ?lv"
      using Suc.prems zip_map_replicate [of "\<lambda>row. row ! ml" ?lv] by simp
    show ?thesis
      unfolding step r using Suc.IH [OF l] by (simp add: z)
  qed
qed

lemma level_rows_slices:
  assumes "\<forall>row \<in> set rows. length row = ml + 1" "i \<le> ml" "i \<le> length key"
  shows "filter (\<lambda>row. take i (drop (ml - i) row) = drop (length key - i) key) rows = level_rows ml rows key i"
  unfolding level_rows_def
proof (rule filter_cong [OF refl])
  fix row assume "row \<in> set rows"
  then have len: "length row = ml + 1" using assms(1) by simp
  have l1: "length (take i (drop (ml - i) row)) = i" using len assms(2) by simp
  have l2: "length (drop (length key - i) key) = i" using assms(3) by simp
  show "(take i (drop (ml - i) row) = drop (length key - i) key) =
        (\<forall>j \<in> set [0..<i]. row ! (ml - i + j) = key ! (length key - i + j))"
    using l1 l2 len assms(2,3) by (auto simp: list_eq_iff_nth_eq)
qed

lemma sum_list_normalize:
  assumes "sum_list ws \<noteq> 0"
  shows "sum_list (normalize ws) = 1"
proof -
  have "sum_list (map (\<lambda>w. w / s) ws) = sum_list ws / s" for s :: rat
    by (induction ws) (simp_all add: add_divide_distrib)
  then show ?thesis using assms by (simp add: normalize_def)
qed

lemma sum_list_pos_rat:
  fixes ws :: "rat list"
  assumes "ws \<noteq> []" "\<forall>w \<in> set ws. 0 < w"
  shows "0 < sum_list ws"
  using assms by (induction ws) (auto intro: add_pos_nonneg sum_list_nonneg less_imp_le)

lemma np_choice_p_support:
  assumes "a \<noteq> []" "length p = length a" "\<forall>q \<in> set p. 0 < q" "sum_list p = 1"
  shows "np_choice_p r a p = Inr (a ! (r mod length a))"
proof -
  have "filter (\<lambda>j. 0 < p ! j) [0..<length a] = [0..<length a]"
    using assms(2,3) by (intro filter_True) (auto simp: all_set_conv_all_nth)
  moreover have "\<not> (\<exists>q \<in> set p. q < 0)" using assms(3) by (auto simp: not_less intro: less_imp_le)
  ultimately show ?thesis using assms by (simp add: np_choice_p_def)
qed

lemmas eval_defs =
  load_def load_and_process_def tokenize_def build_vocabulary_def init_def separate_puncs_def
  puncs_def py_split_def lit_def ascii_def Let_def Counter_def most_common_def
  make_word_to_id_def make_id_to_word_def enumerate_py_def build_matrix_def
  sliding_window_view_def

lemma load_example: "load ascii (lit ''Romeo is here. Juliet is there.'') 2 100 = Inr example_model"
  by (simp add: eval_defs example_model_def example_vocab_def)

lemma weights_from_zip:
  assumes "length c = length w" "zip c w = concat (map (level_pool ml rows key) is)"
  shows "\<forall>x \<in> set w. 0 < x"
proof
  fix x assume "x \<in> set w"
  then have "x \<in> snd ` set (zip c w)"
    using assms(1) by (metis map_snd_zip set_map)
  then obtain row i where "row \<in> set (level_rows ml rows key i)"
      and x: "x = 1 / of_nat (length (level_rows ml rows key i))"
    unfolding assms(2) by (auto simp: level_pool_def)
  then have "0 < length (level_rows ml rows key i)" by (auto simp: length_greater_0_conv)
  then show "0 < x" unfolding x by simp
qed

text \<open>
  Claim C1. For a table of \<open>mlag + 1\<close> columns and a key of \<open>L\<close> ids, \<open>1 \<le> L \<le> mlag\<close>:
  the loop goes through the levels \<open>L, L - 1, .., 1\<close> and the pool is, level after level,
  the targets of the rows matched at that level, each with the weight one over the number
  of rows matched there. A level contributes whenever it matches, whatever the longer
  levels did. When the pool is not empty the normalised weights are positive and sum to
  \<open>1\<close>, and the word returned is that of a candidate of the pool.
\<close>

theorem next_word_levels:
  assumes "M m = Some rows" and "\<forall>row \<in> set rows. length row = mlag m + 1"
    and "key = key_ids_of m recentWords" and "1 \<le> length key" and "length key \<le> mlag m"
  shows "\<exists>cands weights.
      candidates m key = Inr (cands, weights) \<and> length cands = length weights \<and>
      zip cands weights = concat (map (level_pool (mlag m) rows key) (rev [1..<length key + 1])) \<and>
      (cands \<noteq> [] \<longrightarrow>
         sum_list (normalize weights) = 1 \<and> (\<forall>p \<in> set (normalize weights). 0 < p) \<and>
         (\<exists>j < length cands. next_word m r recentWords = dict_item (id_to_word m) (cands ! j)))"
proof -
  let ?ml = "mlag m" and ?L = "length key"
  obtain c w where cw: "backoff_loop ?ml rows key ?L ([], []) = (c, w)"
    by (cases "backoff_loop ?ml rows key ?L ([], [])")
  have cand: "candidates m key = Inr (c, w)"
    using assms(1,4) cw by (auto simp: candidates_def)
  let ?src = "\<lambda>i. map (\<lambda>row. (row ! ?ml,
                     1 / of_nat (length (filter (\<lambda>row. take i (drop (?ml - i) row) = drop (?L - i) key) rows))))
                (filter (\<lambda>row. take i (drop (?ml - i) row) = drop (?L - i) key) rows)"
  have e: "length ([] :: int list) = length ([] :: rat list)" by simp
  have bz: "length c = length w \<and> zip c w = concat (map ?src (rev [1..<?L + 1]))"
    using backoff_loop_zip [OF e, of ?ml rows key ?L]
    by (simp only: cw fst_conv snd_conv zip_Nil append_Nil)
  then have len: "length c = length w" ..
  have "map ?src (rev [1..<?L + 1]) = map (level_pool ?ml rows key) (rev [1..<?L + 1])"
  proof (rule map_cong [OF refl])
    fix i assume "i \<in> set (rev [1..<?L + 1])"
    then have "i \<le> ?ml" "i \<le> ?L" using assms(5) by auto
    then show "?src i = level_pool ?ml rows key i"
      using level_rows_slices [OF assms(2), of i key] by (simp add: level_pool_def)
  qed
  then have z: "zip c w = concat (map (level_pool ?ml rows key) (rev [1..<?L + 1]))"
    using bz by (simp only:)
  have pos: "\<forall>x \<in> set w. 0 < x" using weights_from_zip [OF len z] .
  have tail: "sum_list (normalize w) = 1 \<and> (\<forall>p \<in> set (normalize w). 0 < p) \<and>
         (\<exists>j < length c. next_word m r recentWords = dict_item (id_to_word m) (c ! j))"
    if ne: "c \<noteq> []"
  proof -
    have wne: "w \<noteq> []" using ne len by auto
    have s: "0 < sum_list w" using sum_list_pos_rat [OF wne pos] .
    have one: "sum_list (normalize w) = 1" using s by (intro sum_list_normalize) simp
    have npos: "\<forall>p \<in> set (normalize w). 0 < p" using pos s by (auto simp: normalize_def)
    have "np_choice_p r c (normalize w) = Inr (c ! (r mod length c))"
      using ne len one npos by (intro np_choice_p_support) (simp_all add: normalize_def)
    then have "next_word m r recentWords = dict_item (id_to_word m) (c ! (r mod length c))"
      using cand ne assms(3) by (simp add: next_word_def)
    moreover have "r mod length c < length c" using ne by simp
    ultimately show ?thesis using one npos by blast
  qed
  show ?thesis using cand len z tail by blast
qed

theorem next_word_levels_witness:
  "M example_model = Some [[2, 0, 3], [0, 3, 1], [3, 1, 4], [1, 4, 0], [4, 0, 5], [0, 5, 1]] \<and>
   list_all (\<lambda>row. length row = mlag example_model + 1)
     [[2, 0, 3], [0, 3, 1], [3, 1, 4], [1, 4, 0], [4, 0, 5], [0, 5, 1 :: int]] \<and>
   [2, 0] = key_ids_of example_model (map lit [''romeo'', ''is'']) \<and>
   1 \<le> length [2, 0 :: int] \<and> length [2, 0 :: int] \<le> mlag example_model \<and>
   (\<exists>cands weights.
      candidates example_model [2, 0] = Inr (cands, weights) \<and>
      zip cands weights = [(3, 1), (3, 1 / 2), (5, 1 / 2)] \<and>
      sum_list (normalize weights) = 1)"
proof -
  let ?R = "[[2, 0, 3], [0, 3, 1], [3, 1, 4], [1, 4, 0], [4, 0, 5], [0, 5, 1 :: int]]"
  have h1: "M example_model = Some ?R" by (simp add: example_model_def)
  have h2: "\<forall>row \<in> set ?R. length row = mlag example_model + 1" by (simp add: example_model_def)
  have h3: "[2, 0] = key_ids_of example_model (map lit [''romeo'', ''is''])"
    by (simp add: key_ids_of_def example_model_def example_vocab_def make_word_to_id_def
        enumerate_py_def map_filter_def lit_def)
  have h4: "1 \<le> length [2, 0 :: int]" by simp
  have h5: "length [2, 0 :: int] \<le> mlag example_model" by (simp add: example_model_def)
  have p: "concat (map (level_pool (mlag example_model) ?R [2, 0]) (rev [1..<length [2, 0 :: int] + 1]))
           = [(3, 1), (3, 1 / 2), (5, 1 / 2)]"
    by (simp add: level_pool_def level_rows_def example_model_def upt_rec)
  obtain cands weights where
    "candidates example_model [2, 0] = Inr (cands, weights)"
    "zip cands weights = [(3, 1), (3, 1 / 2), (5, 1 / 2)]"
    "cands \<noteq> [] \<longrightarrow> sum_list (normalize weights) = 1"
    using next_word_levels [OF h1 h2 h3 h4 h5, of 0] unfolding p by blast
  moreover from this have "cands \<noteq> []" by auto
  moreover have "list_all (\<lambda>row. length row = mlag example_model + 1) ?R"
    by (simp add: example_model_def)
  ultimately show ?thesis using h1 h3 h4 h5 by blast
qed

lemma backoff_loop_props:
  assumes "backoff_loop ml rows key n ([], []) = (c, w)"
  shows "length c = length w" and "\<forall>x \<in> set w. 0 < x" and "set c \<subseteq> (\<lambda>row. row ! ml) ` set rows"
proof -
  let ?lv = "\<lambda>i. filter (\<lambda>row. take i (drop (ml - i) row) = drop (length key - i) key) rows"
  let ?src = "\<lambda>i. map (\<lambda>row. (row ! ml, 1 / rat_of_nat (length (?lv i)))) (?lv i)"
  have e: "length ([] :: int list) = length ([] :: rat list)" by simp
  have bz: "length c = length w \<and> zip c w = concat (map ?src (rev [1..<n + 1]))"
    using backoff_loop_zip [OF e, of ml rows key n]
    by (simp only: assms fst_conv snd_conv zip_Nil append_Nil)
  then show len: "length c = length w" ..
  show "\<forall>x \<in> set w. 0 < x"
  proof
    fix x assume "x \<in> set w"
    then have "x \<in> snd ` set (zip c w)" using len by (metis map_snd_zip set_map)
    then obtain row i where "row \<in> set (?lv i)" and x: "x = 1 / of_nat (length (?lv i))"
      using bz by auto
    then have "?lv i \<noteq> []" by (metis empty_iff list.set(1))
    then have "0 < length (?lv i)" by simp
    then show "0 < x" unfolding x by simp
  qed
  show "set c \<subseteq> (\<lambda>row. row ! ml) ` set rows"
  proof
    fix x assume "x \<in> set c"
    then have "x \<in> fst ` set (zip c w)" using len by (metis map_fst_zip set_map)
    then show "x \<in> (\<lambda>row. row ! ml) ` set rows" using bz by auto
  qed
qed

lemma next_word_total:
  assumes inv: "model_inv m" and valid: "\<exists>t \<in> set (tokens m). t \<noteq> - 1"
  shows "\<exists>w t. next_word m r ws = Inr w \<and> w \<in> set (vocab m) \<and>
               t \<in> set (tokens m) \<and> t \<noteq> - 1 \<and> id_to_word m t = Some w"
proof -
  obtain rows where rows: "M m = Some rows"
    and rowp: "\<forall>row \<in> set rows. length row = mlag m + 1 \<and> row ! mlag m \<noteq> - 1 \<and> row ! mlag m \<in> set (tokens m)"
    using inv by (auto simp: model_inv_def)
  have i2w: "id_to_word m t = Some (vocab m ! nat t) \<and> vocab m ! nat t \<in> set (vocab m)"
    if "t \<in> set (tokens m)" "t \<noteq> - 1" for t
  proof -
    have "0 \<le> t \<and> t < int (length (vocab m))" using inv that by (auto simp: model_inv_def)
    moreover have "id_to_word m = make_id_to_word (vocab m)" using inv by (simp add: model_inv_def)
    moreover from calculation have "nat t < length (vocab m)" by linarith
    ultimately show ?thesis using make_id_to_word_iff [of "vocab m" t "vocab m ! nat t"] by simp
  qed
  let ?key = "key_ids_of m ws"
  obtain c w where cw: "candidates m ?key = Inr (c, w)"
    and cwp: "length c = length w" "\<forall>x \<in> set w. 0 < x" "set c \<subseteq> (\<lambda>row. row ! mlag m) ` set rows"
  proof (cases "?key = []")
    case True
    then have "candidates m ?key = Inr ([], [])" by (simp add: candidates_def)
    then show ?thesis using that [of "[]" "[]"] by simp
  next
    case False
    obtain c w where b: "backoff_loop (mlag m) rows ?key (length ?key) ([], []) = (c, w)"
      by (cases "backoff_loop (mlag m) rows ?key (length ?key) ([], [])")
    have "candidates m ?key = Inr (c, w)" using False rows b by (simp add: candidates_def)
    then show ?thesis using that [of c w] backoff_loop_props [OF b] by simp
  qed
  show ?thesis
  proof (cases "c = []")
    case True
    let ?valid = "filter (\<lambda>t. t \<noteq> - 1) (tokens m)"
    have ne: "?valid \<noteq> []" using valid by (auto simp: filter_empty_conv)
    let ?t = "?valid ! (r mod length ?valid)"
    have "?t \<in> set ?valid" using ne by (intro nth_mem) simp
    then have t: "?t \<in> set (tokens m)" "?t \<noteq> - 1" by auto
    have "next_word m r ws = dict_item (id_to_word m) ?t"
      using cw True ne by (simp add: next_word_def np_choice_def Let_def)
    then show ?thesis using i2w [OF t] t by (auto simp: dict_item_def)
  next
    case False
    have wne: "w \<noteq> []" using False cwp(1) by auto
    have s: "0 < sum_list w" using sum_list_pos_rat [OF wne cwp(2)] .
    have one: "sum_list (normalize w) = 1" using s by (intro sum_list_normalize) simp
    have npos: "\<forall>p \<in> set (normalize w). 0 < p" using cwp(2) s by (auto simp: normalize_def)
    let ?t = "c ! (r mod length c)"
    have "np_choice_p r c (normalize w) = Inr ?t"
      using False cwp(1) one npos by (intro np_choice_p_support) (simp_all add: normalize_def)
    then have nw: "next_word m r ws = dict_item (id_to_word m) ?t"
      using cw False by (simp add: next_word_def)
    have "?t \<in> set c" using False by (intro nth_mem) simp
    then obtain row where "row \<in> set rows" "?t = row ! mlag m" using cwp(3) by auto
    then have t: "?t \<in> set (tokens m)" "?t \<noteq> - 1" using rowp by auto
    show ?thesis using nw i2w [OF t] t by (auto simp: dict_item_def)
  qed
qed

lemma next_word_fallback:
  assumes "candidates m (key_ids_of m ws) = Inr ([], weights)" "next_word m r ws = Inr w"
  shows "\<exists>t \<in> set (tokens m). t \<noteq> - 1 \<and> id_to_word m t = Some w"
proof -
  let ?valid = "filter (\<lambda>t. t \<noteq> - 1) (tokens m)"
  have nw: "next_word m r ws = (case np_choice r ?valid of Inl e \<Rightarrow> Inl e | Inr t \<Rightarrow> dict_item (id_to_word m) t)"
    using assms(1) by (simp add: next_word_def Let_def)
  have ne: "?valid \<noteq> []" using assms(2) unfolding nw by (auto simp: np_choice_def split: if_splits)
  let ?t = "?valid ! (r mod length ?valid)"
  have "?t \<in> set ?valid" using ne by (intro nth_mem) simp
  moreover have "dict_item (id_to_word m) ?t = Inr w"
    using assms(2) ne unfolding nw by (simp add: np_choice_def)
  ultimately show ?thesis by (auto simp: dict_item_def split: option.splits)
qed

lemma build_matrix_Inr:
  assumes "build_matrix m1 = Inr m"
  shows "1 \<le> mlag m1 \<and> mlag m1 + 1 \<le> length (tokens m1)"
  using assms
  by (auto simp: build_matrix_def sliding_window_view_def split: if_splits sum.splits)

lemma load_inv:
  assumes "load U text ml k = Inr m"
  shows "model_inv m" and "vocab m = take (nat k) (ranking (tokenize U text))" and "mlag m = ml"
proof -
  let ?ws = "tokenize U text"
  let ?v = "take (nat k) (ranking ?ws)"
  let ?tok = "\<lambda>w. case make_word_to_id ?v w of Some i \<Rightarrow> i | None \<Rightarrow> - 1"
  let ?m1 = "(init ml k)\<lparr>vocab := ?v, word_to_id := make_word_to_id ?v,
               id_to_word := make_id_to_word ?v, tokens := map ?tok ?ws\<rparr>"
  have lp: "load_and_process U (init ml k) text = Inr ?m1"
    using build_vocabulary_eq [of "init ml k" ?ws] by (simp add: load_and_process_def init_def)
  then have bm: "build_matrix ?m1 = Inr m" using assms by (simp add: load_def)
  have f1: "mlag ?m1 = ml" "tokens ?m1 = map ?tok ?ws" by (simp_all add: init_def)
  have ml1: "1 \<le> ml" and n: "ml + 1 \<le> length (map ?tok ?ws)"
    using build_matrix_Inr [OF bm] unfolding f1 by simp_all
  let ?x = "map ?tok ?ws"
  let ?rows = "map (\<lambda>i. map (\<lambda>j. ?x ! (i + j)) [0..<ml + 1])
                 (filter (\<lambda>i. ?x ! (i + ml) \<noteq> - 1 \<and> ?x ! (i + ml - 1) \<noteq> - 1) [0..<length ?x - ml])"
  have "build_matrix ?m1 = Inr (?m1\<lparr>M := Some ?rows\<rparr>)"
    using build_matrix_eq [of ?m1] ml1 n unfolding f1 by blast
  then have m: "m = ?m1\<lparr>M := Some ?rows\<rparr>" using bm by simp
  show "vocab m = ?v" and "mlag m = ml" unfolding m by (simp_all add: init_def)
  have d: "distinct ?v" using ranking_distinct [of ?ws] by simp
  have tokp: "t = - 1 \<or> (0 \<le> t \<and> t < int (length ?v))" if "t \<in> set ?x" for t
  proof -
    have "t \<in> ?tok ` set ?ws" using that by simp
    then obtain w where t: "t = ?tok w" by (rule imageE)
    show ?thesis
    proof (cases "make_word_to_id ?v w")
      case None
      then show ?thesis using t by simp
    next
      case (Some i)
      then show ?thesis using t make_word_to_id_iff [OF d, of w i] by simp
    qed
  qed
  have has: "\<exists>t \<in> set ?x. t \<noteq> - 1" if wv: "w \<in> set ?v" for w
  proof -
    have ws: "w \<in> set ?ws" using wv ranking_set [of ?ws] by (auto dest: in_set_takeD)
    obtain i where i: "make_word_to_id ?v w = Some i"
      using wv make_word_to_id_None [OF d, of w] by auto
    then have "0 \<le> i" using make_word_to_id_iff [OF d, of w i] by simp
    then have "?tok w \<noteq> - 1" using i by simp
    moreover have "?tok w \<in> set ?x" using ws by simp
    ultimately show ?thesis by blast
  qed
  have rowp: "length row = ml + 1 \<and> row ! ml \<noteq> - 1 \<and> row ! ml \<in> set ?x" if rr: "row \<in> set ?rows" for row
  proof -
    obtain i where i: "i < length ?x - ml" "?x ! (i + ml) \<noteq> - 1"
      and row: "row = map (\<lambda>j. ?x ! (i + j)) [0..<ml + 1]"
      using rr by auto
    have "row ! ml = ?x ! (i + ml)"
      unfolding row using nth_map [of ml "[0..<ml + 1]" "\<lambda>j. ?x ! (i + j)"] nth_upt [of 0 ml "ml + 1"]
      by simp
    moreover have "i + ml < length ?x" using i(1) by linarith
    ultimately show ?thesis using i(2) row by (metis length_map length_upt diff_zero nth_mem)
  qed
  show "model_inv m"
    unfolding model_inv_def m using ml1 d tokp has rowp by (simp add: init_def)
qed


text \<open>
  Claim C3, as amended. In a loaded model whose token stream has a position that is not
  \<open>-1\<close>, which is the case whenever the table has a row, \<open>next_word\<close> returns, for every
  sequence of recent words and every draw, a word of the vocabulary; when no level
  matches, this word is that of an id found at a position of the stream that is not
  \<open>-1\<close>.
\<close>

theorem next_word_never_fails:
  assumes "load U text ml k = Inr m"
    and "(\<exists>rows. M m = Some rows \<and> rows \<noteq> []) \<or> (\<exists>t \<in> set (tokens m). t \<noteq> - 1)"
  shows "(\<exists>t \<in> set (tokens m). t \<noteq> - 1) \<and>
         (\<exists>w. next_word m r recentWords = Inr w \<and> w \<in> set (vocab m) \<and>
              (\<forall>weights. candidates m (key_ids_of m recentWords) = Inr ([], weights) \<longrightarrow>
                 (\<exists>t \<in> set (tokens m). t \<noteq> - 1 \<and> id_to_word m t = Some w)))"
proof -
  have inv: "model_inv m" using load_inv(1) [OF assms(1)] .
  have valid: "\<exists>t \<in> set (tokens m). t \<noteq> - 1"
    using assms(2)
  proof
    assume "\<exists>rows. M m = Some rows \<and> rows \<noteq> []"
    then obtain rows where r: "M m = Some rows" "rows \<noteq> []" by blast
    then obtain row where "row \<in> set rows" by (cases rows) auto
    with r have "row ! mlag m \<noteq> - 1 \<and> row ! mlag m \<in> set (tokens m)"
      using inv by (auto simp: model_inv_def)
    then show ?thesis by blast
  qed
  obtain w where w: "next_word m r recentWords = Inr w" "w \<in> set (vocab m)"
    using next_word_total [OF inv valid, of r recentWords] by blast
  show ?thesis using valid w next_word_fallback [OF _ w(1)] by blast
qed

text \<open>
  A table with a row is not the same as a stream with a valid position: the corpus
  \<open>a b\<close> with one word of vocabulary has the stream \<open>[0, -1]\<close> and a table of no row,
  and \<open>next_word\<close> returns all the same.
\<close>

theorem table_empty_stream_valid_counterexample:
  "load ascii (lit ''a b'') 1 1 = Inr sparse_model \<and> M sparse_model = Some [] \<and>
   tokens sparse_model = [0, - 1] \<and> next_word sparse_model 0 [lit ''a''] = Inr (lit ''a'')"
  by (simp add: eval_defs sparse_model_def next_word_def candidates_def key_ids_of_def
      map_filter_def np_choice_def dict_item_def)

theorem next_word_never_fails_witness:
  "load ascii (lit ''Romeo is here. Juliet is there.'') 2 100 = Inr example_model \<and>
   ((\<exists>rows. M example_model = Some rows \<and> rows \<noteq> []) \<or> (\<exists>t \<in> set (tokens example_model). t \<noteq> - 1)) \<and>
   (\<exists>w. next_word example_model 3 (map lit [''juliet'', ''is'']) = Inr w \<and> w \<in> set (vocab example_model))"
proof -
  have h1: "load ascii (lit ''Romeo is here. Juliet is there.'') 2 100 = Inr example_model"
    by (rule load_example)
  have h2: "(\<exists>rows. M example_model = Some rows \<and> rows \<noteq> []) \<or> (\<exists>t \<in> set (tokens example_model). t \<noteq> - 1)"
    by (simp add: example_model_def)
  show ?thesis
    using h1 h2 next_word_never_fails [OF h1 h2, of 3 "map lit [''juliet'', ''is'']"] by blast
qed
section \<open>The generator\<close>








section \<open>The sentence\<close>


























end
